theory Spec2Isabelle
  imports Main "HOL-Library.Sublist"
begin

section \<open>vlx2mqtt: the bridge between the KLF200 hub and the MQTT broker\<close>

text \<open>
  The embedding follows \<^verbatim>\<open>vlx2mqtt.py\<close>. The module's globals (\<^verbatim>\<open>RUNNING\<close>,
  \<^verbatim>\<open>MQTT_CONN\<close>, \<^verbatim>\<open>nodes\<close>) are the fields of a state record, together with logs of
  what the program did to its collaborators: the publishes and subscriptions handed to the
  broker client, the \<^verbatim>\<open>set_position\<close> calls handed to the hub, the calls of
  \<^verbatim>\<open>MQTTC.connect\<close> and the durations of the sleeps. The configuration options and the
  device roster are read-only and live in an environment record.
\<close>

subsection \<open>Python primitives\<close>

datatype exn = ValueError | HubError

text \<open>
  \<^verbatim>\<open>a in b\<close> on strings: \<open>a\<close> occurs in \<open>b\<close> as a contiguous run of characters.
\<close>

fun starts_with :: "string \<Rightarrow> string \<Rightarrow> bool" where
  "starts_with [] s = True"
| "starts_with (a # as) [] = False"
| "starts_with (a # as) (c # cs) = (a = c \<and> starts_with as cs)"

fun py_in :: "string \<Rightarrow> string \<Rightarrow> bool" where
  "py_in a [] = (a = [])"
| "py_in a (c # cs) = (starts_with a (c # cs) \<or> py_in a cs)"

text \<open>
  \<^verbatim>\<open>int(payload)\<close> on a byte string, base 10: blanks around the number are skipped, one
  sign is allowed, the digits may be separated by single underscores, and anything else
  raises \<^verbatim>\<open>ValueError\<close> (here \<open>None\<close>). The interpreter's optional limit on the number
  of digits is not part of the model.
\<close>

definition is_space :: "char \<Rightarrow> bool" where
  "is_space c = (c \<in> set [CHR 0x20, CHR 0x09, CHR 0x0A, CHR 0x0B, CHR 0x0C, CHR 0x0D])"

definition is_digit :: "char \<Rightarrow> bool" where
  "is_digit c = (c \<in> set ''0123456789'')"

definition digit_val :: "char \<Rightarrow> int" where
  "digit_val c = int (of_char c) - 48"

fun scan_digits :: "bool \<Rightarrow> int \<Rightarrow> string \<Rightarrow> int option" where
  "scan_digits after_digit acc [] = (if after_digit then Some acc else None)"
| "scan_digits after_digit acc (c # cs) =
     (if is_digit c then scan_digits True (10 * acc + digit_val c) cs
      else if c = CHR ''_'' \<and> after_digit then scan_digits False acc cs
      else None)"

definition strip :: "string \<Rightarrow> string" where
  "strip s = rev (dropWhile is_space (rev (dropWhile is_space s)))"

definition py_int :: "string \<Rightarrow> int option" where
  "py_int s =
     (case strip s of
        [] \<Rightarrow> None
      | c # cs \<Rightarrow>
          if c = CHR ''-'' then map_option uminus (scan_digits False 0 cs)
          else if c = CHR ''+'' then scan_digits False 0 cs
          else scan_digits False 0 (c # cs))"

text \<open>
  \<^verbatim>\<open>d[k] = v\<close> on a dict, which keeps its keys in insertion order: an existing key keeps
  its place and takes the new value, a new key goes to the end. \<^verbatim>\<open>list(d.items())\<close> is
  then the list itself.
\<close>

fun dict_set :: "string \<Rightarrow> int \<Rightarrow> (string \<times> int) list \<Rightarrow> (string \<times> int) list" where
  "dict_set k v [] = [(k, v)]"
| "dict_set k v ((k', v') # d) =
     (if k' = k then (k, v) # d else (k', v') # dict_set k v d)"

subsection \<open>State and environment\<close>

datatype payload = Text string | Percent int

record node =
  name :: string
  opening_device :: bool

record env =
  ROOTTOPIC :: string
  STATUSTOPIC :: string
  pyvlx_nodes :: "node list"

record state =
  RUNNING :: bool
  MQTT_CONN :: bool
  nodes :: "(string \<times> int) list"
  published :: "(string \<times> payload \<times> bool) list"
  subscribed :: "string list"
  hub_calls :: "(string \<times> int) list"
  connect_calls :: nat
  slept :: "nat list"

text \<open>The module level: \<^verbatim>\<open>RUNNING = True\<close>, \<^verbatim>\<open>MQTT_CONN = False\<close>, \<^verbatim>\<open>nodes = {}\<close>.\<close>

definition initial :: state where
  "initial = \<lparr>RUNNING = True, MQTT_CONN = False, nodes = [], published = [],
     subscribed = [], hub_calls = [], connect_calls = 0, slept = []\<rparr>"

definition publish :: "string \<Rightarrow> payload \<Rightarrow> bool \<Rightarrow> state \<Rightarrow> state" where
  "publish topic p retain s = s\<lparr>published := published s @ [(topic, p, retain)]\<rparr>"

definition subscribe :: "string \<Rightarrow> state \<Rightarrow> state" where
  "subscribe topic s = s\<lparr>subscribed := subscribed s @ [topic]\<rparr>"

definition sleep :: "nat \<Rightarrow> state \<Rightarrow> state" where
  "sleep secs s = s\<lparr>slept := slept s @ [secs]\<rparr>"

subsection \<open>The callbacks\<close>

definition cleanup :: "state \<Rightarrow> state" where
  "cleanup s = s\<lparr>RUNNING := False\<rparr>"

fun register_devices :: "env \<Rightarrow> node list \<Rightarrow> state \<Rightarrow> state" where
  "register_devices e [] s = s"
| "register_devices e (n # ns) s =
     (if opening_device n
      then register_devices e ns (subscribe (ROOTTOPIC e @ ''/'' @ name n @ ''/set'') s)
      else register_devices e ns s)"

definition mqtt_on_connect :: "env \<Rightarrow> int \<Rightarrow> state \<Rightarrow> state" where
  "mqtt_on_connect e return_code s =
     (if return_code = 0 then
        (register_devices e (pyvlx_nodes e)
           (publish (STATUSTOPIC e) (Text ''CONNECTED'') True s))\<lparr>MQTT_CONN := True\<rparr>
      else if return_code = 1 then cleanup s
      else if return_code = 2 then cleanup s
      else if return_code = 3 then sleep 10 s
      else if return_code = 4 then cleanup s
      else if return_code = 5 then cleanup s
      else cleanup s)"

definition mqtt_on_disconnect :: "int \<Rightarrow> state \<Rightarrow> state" where
  "mqtt_on_disconnect return_code s =
     (let s1 = s\<lparr>MQTT_CONN := False\<rparr>
      in if return_code = 0 then s1 else sleep 5 s1)"

text \<open>
  \<^verbatim>\<open>mqtt_on_message\<close>: the loop over the roster. \<^verbatim>\<open>int(msg.payload)\<close> is evaluated
  first for the log line, so a payload that does not parse raises before the assignment.
\<close>

fun on_message_loop :: "node list \<Rightarrow> string \<Rightarrow> string \<Rightarrow> state \<Rightarrow> exn + state" where
  "on_message_loop [] topic pl s = Inr s"
| "on_message_loop (n # ns) topic pl s =
     (if \<not> py_in (name n @ ''/set'') topic then on_message_loop ns topic pl s
      else case py_int pl of
             None \<Rightarrow> Inl ValueError
           | Some v \<Rightarrow> on_message_loop ns topic pl (s\<lparr>nodes := dict_set (name n) v (nodes s)\<rparr>))"

definition mqtt_on_message :: "env \<Rightarrow> string \<Rightarrow> string \<Rightarrow> state \<Rightarrow> exn + state" where
  "mqtt_on_message e topic pl s = on_message_loop (pyvlx_nodes e) topic pl s"

definition vlx_cb :: "env \<Rightarrow> string \<Rightarrow> int \<Rightarrow> state \<Rightarrow> state" where
  "vlx_cb e node_name position_percent s =
     (if \<not> MQTT_CONN s then s
      else publish (ROOTTOPIC e @ ''/'' @ node_name) (Percent position_percent) False s)"

subsection \<open>The main loop\<close>

text \<open>
  The hub is a collaborator: \<open>hub n v\<close> tells whether
  \<^verbatim>\<open>await pyvlx.nodes[n].set_position(Position(position_percent=v))\<close> completes
  (\<open>True\<close>) or raises. One tick walks the snapshot \<^verbatim>\<open>list(nodes.items())\<close>; an entry with
  a value \<open>\<ge> 0\<close> is first marked \<open>-1\<close> in the table, then written to the hub, and an
  exception of the write leaves the loop at once.
\<close>

fun tick_loop :: "(string \<Rightarrow> int \<Rightarrow> bool) \<Rightarrow> (string \<times> int) list \<Rightarrow> state \<Rightarrow> exn option \<times> state" where
  "tick_loop hub [] s = (None, s)"
| "tick_loop hub ((n, v) # items) s =
     (if v \<ge> 0 then
        let s1 = s\<lparr>nodes := dict_set n (-1) (nodes s)\<rparr>;
            s2 = s1\<lparr>hub_calls := hub_calls s1 @ [(n, v)]\<rparr>
        in if hub n v then tick_loop hub items s2 else (Some HubError, s2)
      else tick_loop hub items s)"

definition tick :: "(string \<Rightarrow> int \<Rightarrow> bool) \<Rightarrow> state \<Rightarrow> exn option \<times> state" where
  "tick hub s = tick_loop hub (nodes s) s"

text \<open>
  What happens while the main coroutine is suspended: the broker client's callbacks, the
  hub's device updates and the signal handler. An exception of \<^verbatim>\<open>mqtt_on_message\<close>
  is raised in the broker client's thread, not in the main coroutine, and the handler has
  changed nothing when it raises.
\<close>

datatype event =
    Connack int
  | Disconnected int
  | Message string string
  | DeviceUpdated string int
  | Signal

fun handle :: "env \<Rightarrow> event \<Rightarrow> state \<Rightarrow> state" where
  "handle e (Connack rc) s = mqtt_on_connect e rc s"
| "handle e (Disconnected rc) s = mqtt_on_disconnect rc s"
| "handle e (Message topic pl) s =
     (case mqtt_on_message e topic pl s of Inl x \<Rightarrow> s | Inr s' \<Rightarrow> s')"
| "handle e (DeviceUpdated n p) s = vlx_cb e n p s"
| "handle e Signal s = cleanup s"

datatype outcome = Returned | Raised exn | StillRunning

text \<open>
  \<^verbatim>\<open>while RUNNING: await asyncio.sleep(1); <tick>\<close>. The loop need not end, so it is run
  against a schedule: one list of events for each sleep. A schedule that runs out while
  \<^verbatim>\<open>RUNNING\<close> holds gives \<open>StillRunning\<close>.
\<close>

fun main_loop :: "env \<Rightarrow> (string \<Rightarrow> int \<Rightarrow> bool) \<Rightarrow> event list list \<Rightarrow> state \<Rightarrow> outcome \<times> state" where
  "main_loop e hub [] s = (if \<not> RUNNING s then (Returned, s) else (StillRunning, s))"
| "main_loop e hub (evs # rest) s =
     (if \<not> RUNNING s then (Returned, s)
      else case tick hub (fold (handle e) evs (sleep 1 s)) of
             (Some x, s') \<Rightarrow> (Raised x, s')
           | (None, s') \<Rightarrow> main_loop e hub rest s')"

text \<open>
  The statements after the loop, lines 236 to 245. \<open>disc\<close> tells whether
  \<^verbatim>\<open>await pyvlx.disconnect()\<close> completes or raises.
\<close>

definition shutdown :: "env \<Rightarrow> bool \<Rightarrow> state \<Rightarrow> outcome \<times> state" where
  "shutdown e disc s =
     (let s1 = publish (STATUSTOPIC e) (Text ''DISCONNECTING KLF'') True s
      in if \<not> disc then (Raised HubError, s1)
         else (Returned,
               publish (STATUSTOPIC e) (Text ''DISCONNECTED'') True
                 (publish (STATUSTOPIC e) (Text ''DISCONNECTED KLF'') True s1)))"

text \<open>
  The connect loop at the head of \<^verbatim>\<open>main\<close>, lines 191 to 196. \<open>conn k\<close> is the result
  of the \<open>k\<close>-th call of \<^verbatim>\<open>MQTTC.connect\<close>. The loop has no bound of its own, so it runs
  on fuel: \<open>None\<close> is a loop that has not yet left.
\<close>

definition MQTTC_connect :: "(nat \<Rightarrow> int) \<Rightarrow> state \<Rightarrow> int \<times> state" where
  "MQTTC_connect conn s = (conn (connect_calls s), s\<lparr>connect_calls := Suc (connect_calls s)\<rparr>)"

fun connect_loop :: "nat \<Rightarrow> (nat \<Rightarrow> int) \<Rightarrow> int \<Rightarrow> state \<Rightarrow> state option" where
  "connect_loop 0 conn result s = None"
| "connect_loop (Suc fuel) conn result s =
     (if result \<noteq> 0 then
        (case MQTTC_connect conn (sleep 10 s) of (r, s') \<Rightarrow> connect_loop fuel conn r s')
      else Some s)"

definition connect_broker :: "nat \<Rightarrow> env \<Rightarrow> (nat \<Rightarrow> int) \<Rightarrow> state \<Rightarrow> state option" where
  "connect_broker fuel e conn s =
     (case MQTTC_connect conn s of
        (r, s') \<Rightarrow> map_option (publish (STATUSTOPIC e) (Text ''STARTED'') True)
                     (connect_loop fuel conn r s'))"

text \<open>
  \<^verbatim>\<open>main\<close> from the pause after \<^verbatim>\<open>loop_start\<close> on: the pause, the status message, the
  main loop, and the shutdown statements when the loop is left by its condition.
\<close>

definition main_from_start :: "env \<Rightarrow> (string \<Rightarrow> int \<Rightarrow> bool) \<Rightarrow> bool \<Rightarrow> event list list \<Rightarrow> state \<Rightarrow> outcome \<times> state" where
  "main_from_start e hub disc rounds s =
     (case main_loop e hub rounds
             (publish (STATUSTOPIC e) (Text ''KLF200_available'') True (sleep 2 s)) of
        (Returned, s') \<Rightarrow> shutdown e disc s'
      | (out, s') \<Rightarrow> (out, s'))"

text \<open>The \<^verbatim>\<open>set_position\<close> calls of one tick started in \<open>s\<close>.\<close>

definition issued :: "(string \<Rightarrow> int \<Rightarrow> bool) \<Rightarrow> state \<Rightarrow> (string \<times> int) list" where
  "issued hub s = drop (length (hub_calls s)) (hub_calls (snd (tick hub s)))"

subsection \<open>A concrete installation\<close>

text \<open>The root topic \<^verbatim>\<open>home\<close> and one opening device, \<^verbatim>\<open>shutter1\<close>.\<close>

definition env0 :: env where
  "env0 = \<lparr>ROOTTOPIC = ''home'', STATUSTOPIC = ''home/status'',
     pyvlx_nodes = [\<lparr>name = ''shutter1'', opening_device = True\<rparr>]\<rparr>"

text \<open>Two opening devices, the name of one ending in the name of the other.\<close>

definition env1 :: env where
  "env1 = \<lparr>ROOTTOPIC = ''home'', STATUSTOPIC = ''home/status'',
     pyvlx_nodes = [\<lparr>name = ''window'', opening_device = True\<rparr>,
                    \<lparr>name = ''roof window'', opening_device = True\<rparr>]\<rparr>"

subsection \<open>Auxiliary functions for the proofs\<close>

text \<open>
  These are not part of the program; they describe what its iterations compute. \<open>pending\<close>
  is the part of the snapshot that a tick picks up, \<open>writes\<close> the hub calls made for it
  (up to and including the first one that raises) with the way the loop is left,
  \<open>mark\<close> the resets that go with these calls, and \<open>staged\<close> the assignments of one
  message whose payload parses to \<open>v\<close>.
\<close>

definition pending :: "(string \<times> int) list \<Rightarrow> (string \<times> int) list" where
  "pending items = filter (\<lambda>p. 0 \<le> snd p) items"

fun writes :: "(string \<Rightarrow> int \<Rightarrow> bool) \<Rightarrow> (string \<times> int) list \<Rightarrow> exn option \<times> (string \<times> int) list" where
  "writes hub [] = (None, [])"
| "writes hub ((n, v) # ps) =
     (if hub n v then (fst (writes hub ps), (n, v) # snd (writes hub ps))
      else (Some HubError, [(n, v)]))"

definition mark :: "(string \<times> int) list \<Rightarrow> (string \<times> int) list \<Rightarrow> (string \<times> int) list" where
  "mark cs d = fold (\<lambda>p. dict_set (fst p) (-1)) cs d"

definition staged :: "int \<Rightarrow> string \<Rightarrow> node list \<Rightarrow> (string \<times> int) list \<Rightarrow> (string \<times> int) list" where
  "staged v topic ns d =
     fold (\<lambda>n d. if py_in (name n @ ''/set'') topic then dict_set (name n) v d else d) ns d"

section \<open>Properties\<close>

subsection \<open>Payloads used below\<close>

lemma py_int_sentinel: "py_int ''-1'' = Some (-1)" by code_simp

lemma py_int_0: "py_int ''0'' = Some 0" by code_simp

lemma py_int_100: "py_int ''100'' = Some 100" by code_simp

lemma py_int_minus5: "py_int ''-5'' = Some (-5)" by code_simp

lemma py_int_abc: "py_int ''abc'' = None" by code_simp

lemma py_int_42: "py_int ''42'' = Some 42" by code_simp

subsection \<open>The table and one tick\<close>

lemma map_of_dict_set: "map_of (dict_set k v d) = (map_of d)(k \<mapsto> v)"
  by (induction d) (auto simp: fun_eq_iff)

lemma keys_dict_set:
  "map fst (dict_set k v d) = (if k \<in> fst ` set d then map fst d else map fst d @ [k])"
  by (induction d) force+

lemma distinct_dict_set: "distinct (map fst d) \<Longrightarrow> distinct (map fst (dict_set k v d))"
  by (simp add: keys_dict_set)

lemma map_of_mark:
  "map_of (mark cs d) k = (if k \<in> fst ` set cs then Some (-1) else map_of d k)"
  unfolding mark_def by (induction cs arbitrary: d) (auto simp: map_of_dict_set)

lemma distinct_mark: "distinct (map fst d) \<Longrightarrow> distinct (map fst (mark cs d))"
  unfolding mark_def by (induction cs arbitrary: d) (auto simp: distinct_dict_set)

lemma tick_loop_writes:
  "tick_loop hub items s =
     (fst (writes hub (pending items)),
      s\<lparr>nodes := mark (snd (writes hub (pending items))) (nodes s),
        hub_calls := hub_calls s @ snd (writes hub (pending items))\<rparr>)"
proof (induction items arbitrary: s)
  case Nil
  show ?case by (simp add: pending_def mark_def)
next
  case (Cons p items)
  obtain n v where p: "p = (n, v)" by (cases p)
  show ?case
    by (simp add: p Cons pending_def mark_def Let_def)
qed

lemma issued_writes: "issued hub s = snd (writes hub (pending (nodes s)))"
  by (simp add: issued_def tick_def tick_loop_writes)

lemma tick_outcome: "fst (tick hub s) = fst (writes hub (pending (nodes s)))"
  by (simp add: tick_def tick_loop_writes)

lemma tick_nodes: "nodes (snd (tick hub s)) = mark (issued hub s) (nodes s)"
  by (simp add: issued_writes tick_def tick_loop_writes)

lemma writes_prefix: "prefix (snd (writes hub ps)) ps"
  by (induction ps) auto

lemma writes_complete: "fst (writes hub ps) = None \<Longrightarrow> snd (writes hub ps) = ps"
  by (induction ps) (auto split: if_splits)

lemma filter_key_distinct:
  "distinct (map fst d) \<Longrightarrow> map_of d k = Some v \<Longrightarrow> filter (\<lambda>p. fst p = k) d = [(k, v)]"
proof (induction d)
  case Nil
  then show ?case by simp
next
  case (Cons p d)
  show ?case
  proof (cases "fst p = k")
    case True
    with Cons.prems have "p = (k, v)" by (cases p) simp
    moreover from True Cons.prems have "filter (\<lambda>q. fst q = k) d = []"
      by (auto simp: filter_empty_conv image_iff)
    ultimately show ?thesis by simp
  next
    case False
    with Cons show ?thesis by (cases p) auto
  qed
qed

lemma prefix_singleton: "prefix xs [a] \<Longrightarrow> xs = [] \<or> xs = [a]"
  by (cases xs) auto

lemma pending_same_negative:
  "map_of d k = Some v \<Longrightarrow> v < 0 \<Longrightarrow> w < 0 \<Longrightarrow> pending (dict_set k w d) = pending d"
  by (induction d) (auto simp: pending_def)

subsection \<open>Messages\<close>

lemma on_message_parsed:
  "py_int pl = Some v \<Longrightarrow>
   on_message_loop ns topic pl s = Inr (s\<lparr>nodes := staged v topic ns (nodes s)\<rparr>)"
  by (induction ns arbitrary: s) (simp_all add: staged_def)

lemma on_message_unparsed:
  "py_int pl = None \<Longrightarrow>
   on_message_loop ns topic pl s =
     (if \<exists>n \<in> set ns. py_in (name n @ ''/set'') topic then Inl ValueError else Inr s)"
  by (induction ns arbitrary: s) simp_all

lemma map_of_staged:
  "map_of (staged v topic ns d) k =
     (if \<exists>n \<in> set ns. name n = k \<and> py_in (k @ ''/set'') topic then Some v else map_of d k)"
  unfolding staged_def by (induction ns arbitrary: d) (auto simp: map_of_dict_set)

lemma distinct_staged: "distinct (map fst d) \<Longrightarrow> distinct (map fst (staged v topic ns d))"
  unfolding staged_def by (induction ns arbitrary: d) (auto simp: distinct_dict_set)

subsection \<open>What a tick issues for one device\<close>

lemma issued_for_key:
  assumes "distinct (map fst (nodes s))" and "map_of (nodes s) d = Some v" and "0 \<le> v"
  shows "filter (\<lambda>p. fst p = d) (issued hub s) \<in> {[], [(d, v)]}"
    and "fst (tick hub s) = None \<Longrightarrow> filter (\<lambda>p. fst p = d) (issued hub s) = [(d, v)]"
proof -
  have "filter (\<lambda>p. fst p = d) (pending (nodes s)) =
        filter (\<lambda>p. 0 \<le> snd p) (filter (\<lambda>p. fst p = d) (nodes s))"
    by (simp add: pending_def conj_commute)
  with assms have one: "filter (\<lambda>p. fst p = d) (pending (nodes s)) = [(d, v)]"
    by (simp add: filter_key_distinct)
  have "prefix (filter (\<lambda>p. fst p = d) (issued hub s)) (filter (\<lambda>p. fst p = d) (pending (nodes s)))"
    unfolding issued_writes by (rule filter_mono_prefix [OF writes_prefix]) 
  with one show "filter (\<lambda>p. fst p = d) (issued hub s) \<in> {[], [(d, v)]}"
    using prefix_singleton by fastforce
  show "filter (\<lambda>p. fst p = d) (issued hub s) = [(d, v)]" if "fst (tick hub s) = None"
    using that one by (simp add: issued_writes tick_outcome writes_complete)
qed

lemma issued_negative_key:
  assumes "distinct (map fst (nodes s))" and "map_of (nodes s) d = Some v" and "v < 0"
  shows "d \<notin> fst ` set (issued hub s)"
proof
  assume "d \<in> fst ` set (issued hub s)"
  then obtain w where "(d, w) \<in> set (issued hub s)" by auto
  then have "(d, w) \<in> set (pending (nodes s))"
    using writes_prefix [of hub "pending (nodes s)"] by (auto simp: issued_writes dest: set_mono_prefix)
  then have "(d, w) \<in> set (nodes s)" and "0 \<le> w" by (auto simp: pending_def)
  with assms(1) have "map_of (nodes s) d = Some w" by simp
  with assms(2,3) \<open>0 \<le> w\<close> show False by simp
qed

lemma pending_after_tick:
  assumes "distinct (map fst (nodes s))" and "(k, w) \<in> set (pending (nodes (snd (tick hub s))))"
  shows "k \<notin> fst ` set (issued hub s)" and "(k, w) \<in> set (pending (nodes s))"
proof -
  let ?d = "nodes (snd (tick hub s))"
  from assms(2) have mem: "(k, w) \<in> set ?d" and w: "0 \<le> w" by (auto simp: pending_def)
  have "distinct (map fst ?d)" using assms(1) by (simp add: tick_nodes distinct_mark)
  with mem have look: "map_of (mark (issued hub s) (nodes s)) k = Some w"
    by (simp add: tick_nodes)
  with w show out: "k \<notin> fst ` set (issued hub s)"
    by (auto simp: map_of_mark split: if_splits)
  with look have "map_of (nodes s) k = Some w" by (simp add: map_of_mark)
  then have "(k, w) \<in> set (nodes s)" by (rule map_of_SomeD)
  with w show "(k, w) \<in> set (pending (nodes s))" by (simp add: pending_def)
qed

lemma issued_subset_pending: "set (issued hub s) \<subseteq> set (pending (nodes s))"
  unfolding issued_writes by (rule set_mono_prefix [OF writes_prefix])

lemma issued_nonneg: "p \<in> set (issued hub s) \<Longrightarrow> 0 \<le> snd p"
  using issued_subset_pending [of hub s] by (auto simp: pending_def)

lemma message_staged:
  assumes "distinct (map fst (nodes s))" and "n \<in> set (pyvlx_nodes e)" and "name n = d"
    and "py_in (d @ ''/set'') topic" and "py_int pl = Some v"
  shows "\<exists>s1. mqtt_on_message e topic pl s = Inr s1 \<and> map_of (nodes s1) d = Some v
           \<and> distinct (map fst (nodes s1)) \<and> hub_calls s1 = hub_calls s"
  using assms by (auto simp: mqtt_on_message_def on_message_parsed map_of_staged distinct_staged)

subsection \<open>Only a tick calls the hub\<close>

lemma register_devices_eq:
  "register_devices e ns s =
     s\<lparr>subscribed := subscribed s @
           map (\<lambda>n. ROOTTOPIC e @ ''/'' @ name n @ ''/set'') (filter opening_device ns)\<rparr>"
  by (induction ns arbitrary: s) (simp_all add: subscribe_def)

lemma handle_message:
  "handle e (Message topic pl) s =
     (case py_int pl of None \<Rightarrow> s
      | Some v \<Rightarrow> s\<lparr>nodes := staged v topic (pyvlx_nodes e) (nodes s)\<rparr>)"
  by (cases "py_int pl")
     (simp_all add: mqtt_on_message_def on_message_parsed on_message_unparsed)

lemma hub_calls_handle: "hub_calls (handle e ev s) = hub_calls s"
  by (cases ev)
     (simp_all del: handle.simps(3)
        add: handle_message mqtt_on_connect_def mqtt_on_disconnect_def vlx_cb_def
          cleanup_def sleep_def publish_def register_devices_eq Let_def split: option.split)

lemma hub_calls_fold_handle: "hub_calls (fold (handle e) evs s) = hub_calls s"
  by (induction evs arbitrary: s) (simp_all add: hub_calls_handle)

lemma hub_calls_tick: "hub_calls (snd (tick hub s)) = hub_calls s @ issued hub s"
  by (simp add: issued_writes tick_def tick_loop_writes)

lemma main_loop_calls_nonneg:
  "p \<in> set (hub_calls (snd (main_loop e hub rounds s))) \<Longrightarrow> p \<in> set (hub_calls s) \<or> 0 \<le> snd p"
proof (induction rounds arbitrary: s)
  case Nil
  then show ?case by (simp split: if_splits)
next
  case (Cons evs rest)
  let ?t = "tick hub (fold (handle e) evs (sleep 1 s))"
  have calls: "hub_calls (snd ?t) = hub_calls s @ issued hub (fold (handle e) evs (sleep 1 s))"
    by (simp add: hub_calls_tick hub_calls_fold_handle sleep_def)
  show ?case
  proof (cases "RUNNING s")
    case False
    with Cons.prems show ?thesis by simp
  next
    case True
    show ?thesis
    proof (cases "fst ?t")
      case None
      with True Cons.prems have "p \<in> set (hub_calls (snd (main_loop e hub rest (snd ?t))))"
        by (simp add: case_prod_beta)
      from Cons.IH [OF this] calls show ?thesis by (auto dest: issued_nonneg)
    next
      case (Some x)
      with True Cons.prems have "p \<in> set (hub_calls (snd ?t))" by (simp add: case_prod_beta)
      with calls show ?thesis by (auto dest: issued_nonneg)
    qed
  qed
qed

subsection \<open>A raising hub write\<close>

lemma writes_fails:
  "(n, v) \<in> set ps \<Longrightarrow> \<not> hub n v \<Longrightarrow> fst (writes hub ps) = Some HubError"
  by (induction ps) auto

lemma tick_fails:
  assumes "(n, v) \<in> set (nodes s)" and "0 \<le> v" and "\<not> hub n v"
  shows "fst (tick hub s) = Some HubError"
proof -
  from assms(1,2) have "(n, v) \<in> set (pending (nodes s))" by (simp add: pending_def)
  then show ?thesis using assms(3) by (simp add: tick_outcome writes_fails)
qed

lemma published_tick: "published (snd (tick hub s)) = published s"
  by (simp add: tick_def tick_loop_writes)

lemma slept_tick: "slept (snd (tick hub s)) = slept s"
  by (simp add: tick_def tick_loop_writes)

subsection \<open>The run flag and the connect count\<close>








subsection \<open>Leaving the main loop\<close>

lemma main_loop_stopped: "\<not> RUNNING s \<Longrightarrow> main_loop e hub rounds s = (Returned, s)"
  by (cases rounds) simp_all

lemma main_loop_still_running:
  "main_loop e hub rounds s = (StillRunning, s') \<Longrightarrow>
   RUNNING s' \<and> main_loop e hub (rounds @ later) s = main_loop e hub later s'"
proof (induction rounds arbitrary: s)
  case Nil
  then show ?case by (cases "RUNNING s") (simp_all add: main_loop_stopped)
next
  case (Cons evs rest)
  let ?t = "tick hub (fold (handle e) evs (sleep 1 s))"
  from Cons.prems have run: "RUNNING s" by (auto split: if_splits)
  show ?case
  proof (cases "fst ?t")
    case None
    with run Cons.prems have "main_loop e hub rest (snd ?t) = (StillRunning, s')"
      by (simp add: case_prod_beta)
    from Cons.IH [OF this] None run show ?thesis by (simp add: case_prod_beta)
  next
    case (Some y)
    with run Cons.prems show ?thesis by (simp add: case_prod_beta)
  qed
qed

subsection \<open>Refusals and the connect loop\<close>

lemma transient_refusals:
  "fold (mqtt_on_connect e) (replicate k 3) s = s\<lparr>slept := slept s @ replicate k 10\<rparr>"
proof (induction k arbitrary: s)
  case 0
  show ?case by simp
next
  case (Suc k)
  have "mqtt_on_connect e 3 s = sleep 10 s" by (simp add: mqtt_on_connect_def)
  then show ?case by (simp del: fold_replicate add: Suc sleep_def)
qed

lemma connect_loop_retries:
  "(\<forall>i<k. (case i of 0 \<Rightarrow> result | Suc j \<Rightarrow> conn (connect_calls s + j)) \<noteq> 0) \<Longrightarrow>
   (case k of 0 \<Rightarrow> result | Suc j \<Rightarrow> conn (connect_calls s + j)) = 0 \<Longrightarrow>
   k < fuel \<Longrightarrow>
   connect_loop fuel conn result s =
     Some (s\<lparr>connect_calls := connect_calls s + k, slept := slept s @ replicate k 10\<rparr>)"
proof (induction k arbitrary: fuel result s)
  case 0
  then obtain f where "fuel = Suc f" by (cases fuel) auto
  with 0 show ?case by simp
next
  case (Suc k)
  then obtain f where f: "fuel = Suc f" and kf: "k < f" by (cases fuel) auto
  from Suc.prems(1) have r: "result \<noteq> 0" by (auto dest: spec [of _ 0])
  let ?s = "(sleep 10 s)\<lparr>connect_calls := Suc (connect_calls s)\<rparr>"
  have all: "\<forall>i<k. (case i of 0 \<Rightarrow> conn (connect_calls s) | Suc j \<Rightarrow> conn (connect_calls ?s + j)) \<noteq> 0"
  proof (intro allI impI)
    fix i assume "i < k"
    with Suc.prems(1) have "(case Suc i of 0 \<Rightarrow> result | Suc j \<Rightarrow> conn (connect_calls s + j)) \<noteq> 0"
      by (auto simp del: nat.case)
    then show "(case i of 0 \<Rightarrow> conn (connect_calls s) | Suc j \<Rightarrow> conn (connect_calls ?s + j)) \<noteq> 0"
      by (cases i) (simp_all add: sleep_def)
  qed
  have last: "(case k of 0 \<Rightarrow> conn (connect_calls s) | Suc j \<Rightarrow> conn (connect_calls ?s + j)) = 0"
    using Suc.prems(2) by (cases k) (simp_all add: sleep_def)
  have "connect_loop fuel conn result s = connect_loop f conn (conn (connect_calls s)) ?s"
    using r by (simp add: f MQTTC_connect_def sleep_def)
  also have "\<dots> = Some (?s\<lparr>connect_calls := connect_calls ?s + k, slept := slept ?s @ replicate k 10\<rparr>)"
    by (rule Suc.IH [OF all last kf])
  also have "\<dots> = Some (s\<lparr>connect_calls := connect_calls s + Suc k, slept := slept s @ replicate (Suc k) 10\<rparr>)"
    by (simp add: sleep_def)
  finally show ?case .
qed

subsection \<open>Command topics\<close>

lemma starts_with_append: "starts_with a (a @ b)"
  by (induction a) simp_all

lemma py_in_append: "py_in a (b @ a @ c)"
proof (induction b)
  case Nil
  show ?case by (cases "a @ c") (use starts_with_append [of a c] in auto)
next
  case (Cons x b)
  then show ?case by simp
qed

lemma command_topic_staged:
  assumes "n \<in> set (pyvlx_nodes e)" and "py_int pl = Some v"
  shows "\<exists>s'. mqtt_on_message e (ROOTTOPIC e @ ''/'' @ name n @ ''/set'') pl s = Inr s'
           \<and> map_of (nodes s') (name n) = Some v"
proof -
  have "py_in (name n @ ''/set'') ((ROOTTOPIC e @ ''/'') @ (name n @ ''/set'') @ [])"
    by (rule py_in_append)
  then have "py_in (name n @ ''/set'') (ROOTTOPIC e @ ''/'' @ name n @ ''/set'')" by simp
  with assms show ?thesis
    by (auto simp: mqtt_on_message_def on_message_parsed map_of_staged)
qed

lemma scenario_shutter1:
  "mqtt_on_message env0 ''home/shutter1/set'' ''42'' initial
     = Inr (initial\<lparr>nodes := [(''shutter1'', 42)]\<rparr>)
   \<and> tick (\<lambda>n v. True) (initial\<lparr>nodes := [(''shutter1'', 42)]\<rparr>)
     = (None, initial\<lparr>nodes := [(''shutter1'', -1)], hub_calls := [(''shutter1'', 42)]\<rparr>)"
  by (simp add: mqtt_on_message_def env0_def py_int_42 tick_def initial_def)

section \<open>The claims\<close>

text \<open>
  C1. Let \<open>d\<close> be a device of the roster and let two messages arrive whose topics carry
  \<open>d/set\<close> and whose payloads are the integers \<open>v1\<close> and then \<open>v2\<close>, a position
  (\<open>0 \<le> v2\<close>), with no tick in between. Both are staged, the table then holds \<open>v2\<close> for
  \<open>d\<close>, and the next tick calls the hub for \<open>d\<close> at most once and only with \<open>v2\<close>;
  a tick that is not cut short by a failing hub write calls it exactly once.
\<close>

theorem last_write_wins:
  assumes "distinct (map fst (nodes s))"
    and "n \<in> set (pyvlx_nodes e)" and "name n = d"
    and "py_in (d @ ''/set'') t1" and "py_in (d @ ''/set'') t2"
    and "py_int p1 = Some v1" and "py_int p2 = Some v2" and "0 \<le> v2"
  shows "\<exists>s1 s2. mqtt_on_message e t1 p1 s = Inr s1 \<and> mqtt_on_message e t2 p2 s1 = Inr s2
           \<and> map_of (nodes s2) d = Some v2
           \<and> filter (\<lambda>p. fst p = d) (issued hub s2) \<in> {[], [(d, v2)]}
           \<and> (fst (tick hub s2) = None \<longrightarrow> filter (\<lambda>p. fst p = d) (issued hub s2) = [(d, v2)])"
proof -
  define s1 where "s1 = s\<lparr>nodes := staged v1 t1 (pyvlx_nodes e) (nodes s)\<rparr>"
  define s2 where "s2 = s1\<lparr>nodes := staged v2 t2 (pyvlx_nodes e) (nodes s1)\<rparr>"
  have m1: "mqtt_on_message e t1 p1 s = Inr s1"
    using assms(6) by (simp add: mqtt_on_message_def on_message_parsed s1_def)
  have m2: "mqtt_on_message e t2 p2 s1 = Inr s2"
    using assms(7) by (simp add: mqtt_on_message_def on_message_parsed s2_def)
  have dist: "distinct (map fst (nodes s2))"
    using assms(1) by (simp add: s1_def s2_def distinct_staged)
  have look: "map_of (nodes s2) d = Some v2"
    using assms(2,3,5) by (auto simp: s2_def map_of_staged)
  from issued_for_key [OF dist look \<open>0 \<le> v2\<close>] m1 m2 look show ?thesis by blast
qed

theorem last_write_wins_witness:
  "distinct (map fst (nodes initial))
   \<and> py_in (''shutter1'' @ ''/set'') ''home/shutter1/set''
   \<and> py_int ''10'' = Some 10 \<and> py_int ''42'' = Some 42
   \<and> (\<exists>s1 s2. mqtt_on_message env0 ''home/shutter1/set'' ''10'' initial = Inr s1
         \<and> mqtt_on_message env0 ''home/shutter1/set'' ''42'' s1 = Inr s2
         \<and> map_of (nodes s2) ''shutter1'' = Some 42
         \<and> filter (\<lambda>p. fst p = ''shutter1'') (issued (\<lambda>n v. True) s2) = [(''shutter1'', 42)])"
proof -
  have h1: "distinct (map fst (nodes initial))" by (simp add: initial_def)
  have h2: "\<lparr>name = ''shutter1'', opening_device = True\<rparr> \<in> set (pyvlx_nodes env0)"
    by (simp add: env0_def)
  have h3: "name \<lparr>name = ''shutter1'', opening_device = True\<rparr> = ''shutter1''" by simp
  have h4: "py_in (''shutter1'' @ ''/set'') ''home/shutter1/set''" by simp
  have h5: "py_int ''10'' = Some 10" by code_simp
  have h6: "py_int ''42'' = Some 42" by code_simp
  have h7: "(0::int) \<le> 42" by simp
  have a: "mqtt_on_message env0 ''home/shutter1/set'' ''10'' initial
             = Inr (initial\<lparr>nodes := [(''shutter1'', 10)]\<rparr>)"
    by (simp add: mqtt_on_message_def env0_def h5 initial_def)
  have b: "mqtt_on_message env0 ''home/shutter1/set'' ''42'' (initial\<lparr>nodes := [(''shutter1'', 10)]\<rparr>)
             = Inr (initial\<lparr>nodes := [(''shutter1'', 42)]\<rparr>)"
    by (simp add: mqtt_on_message_def env0_def h6 initial_def)
  have t: "fst (tick (\<lambda>n v. True) (initial\<lparr>nodes := [(''shutter1'', 42)]\<rparr>)) = None"
    by (simp add: tick_def initial_def)
  from last_write_wins [OF h1 h2 h3 h4 h4 h5 h6 h7, of "\<lambda>n v. True"] a b t
  have "\<exists>s1 s2. mqtt_on_message env0 ''home/shutter1/set'' ''10'' initial = Inr s1
         \<and> mqtt_on_message env0 ''home/shutter1/set'' ''42'' s1 = Inr s2
         \<and> map_of (nodes s2) ''shutter1'' = Some 42
         \<and> filter (\<lambda>p. fst p = ''shutter1'') (issued (\<lambda>n v. True) s2) = [(''shutter1'', 42)]"
    by auto
  with h1 h4 h5 h6 show ?thesis by blast
qed

text \<open>
  C2. Every entry for which a tick calls the hub, the call that raises included, stands at
  \<open>-1\<close> in the table when the tick is left, so the reset does not wait for the write to
  complete. A tick that follows with nothing staged in between makes no call for that
  device, and after a tick that was not cut short it makes no call at all.
\<close>

theorem drained_entry_is_reset:
  assumes "distinct (map fst (nodes s))" and "(d, v) \<in> set (issued hub s)"
  shows "map_of (nodes (snd (tick hub s))) d = Some (-1)
         \<and> d \<notin> fst ` set (issued hub' (snd (tick hub s)))
         \<and> (fst (tick hub s) = None \<longrightarrow> issued hub' (snd (tick hub s)) = [])"
proof (intro conjI impI)
  from assms(2) have dm: "d \<in> fst ` set (issued hub s)" by force
  then show "map_of (nodes (snd (tick hub s))) d = Some (-1)"
    by (simp add: tick_nodes map_of_mark)
  show "d \<notin> fst ` set (issued hub' (snd (tick hub s)))"
  proof
    assume "d \<in> fst ` set (issued hub' (snd (tick hub s)))"
    then obtain w where "(d, w) \<in> set (issued hub' (snd (tick hub s)))" by auto
    then have "(d, w) \<in> set (pending (nodes (snd (tick hub s))))"
      using issued_subset_pending by blast
    from pending_after_tick(1) [OF assms(1) this] dm show False by simp
  qed
  show "issued hub' (snd (tick hub s)) = []" if ok: "fst (tick hub s) = None"
  proof -
    have all: "issued hub s = pending (nodes s)"
      using ok by (simp add: issued_writes tick_outcome writes_complete)
    have "pending (nodes (snd (tick hub s))) = []"
    proof (rule ccontr)
      assume "pending (nodes (snd (tick hub s))) \<noteq> []"
      then obtain k w where kw: "(k, w) \<in> set (pending (nodes (snd (tick hub s))))"
        by (cases "pending (nodes (snd (tick hub s)))") auto
      from pending_after_tick [OF assms(1) kw] all show False by force
    qed
    then show ?thesis by (simp add: issued_writes)
  qed
qed

theorem drained_entry_is_reset_witness:
  "distinct (map fst [(''shutter1'', 42::int)])
   \<and> (''shutter1'', 42) \<in> set (issued (\<lambda>n v. False) (initial\<lparr>nodes := [(''shutter1'', 42)]\<rparr>))
   \<and> fst (tick (\<lambda>n v. False) (initial\<lparr>nodes := [(''shutter1'', 42)]\<rparr>)) = Some HubError
   \<and> map_of (nodes (snd (tick (\<lambda>n v. False) (initial\<lparr>nodes := [(''shutter1'', 42)]\<rparr>)))) ''shutter1'' = Some (-1)
   \<and> ''shutter1'' \<notin> fst ` set (issued (\<lambda>n v. True)
         (snd (tick (\<lambda>n v. False) (initial\<lparr>nodes := [(''shutter1'', 42)]\<rparr>))))"
proof -
  have h1: "distinct (map fst (nodes (initial\<lparr>nodes := [(''shutter1'', 42)]\<rparr>)))" by simp
  have h2: "(''shutter1'', 42) \<in> set (issued (\<lambda>n v. False) (initial\<lparr>nodes := [(''shutter1'', 42)]\<rparr>))"
    by (simp add: issued_def tick_def initial_def)
  have h3: "fst (tick (\<lambda>n v. False) (initial\<lparr>nodes := [(''shutter1'', 42)]\<rparr>)) = Some HubError"
    by (simp add: tick_def initial_def)
  from drained_entry_is_reset [OF h1 h2, of "\<lambda>n v. True"] h2 h3 show ?thesis by simp
qed

text \<open>
  C4. No tick ever passes \<open>-1\<close> to the hub, and a message with payload \<^verbatim>\<open>-1\<close> for a
  device \<open>d\<close> of the roster leaves nothing to issue for \<open>d\<close>. Messages with the payloads
  \<^verbatim>\<open>0\<close> and \<^verbatim>\<open>100\<close> are staged with these values, and a tick that is not cut short
  issues exactly one call for \<open>d\<close>, with position 0 and 100.
\<close>

theorem sentinel_and_bounds:
  assumes "distinct (map fst (nodes s))" and "n \<in> set (pyvlx_nodes e)" and "name n = d"
    and "py_in (d @ ''/set'') topic"
  shows "(\<forall>p \<in> set (issued hub s). snd p \<noteq> -1)
       \<and> (\<exists>s1. mqtt_on_message e topic ''-1'' s = Inr s1 \<and> d \<notin> fst ` set (issued hub s1))
       \<and> (\<exists>s1. mqtt_on_message e topic ''0'' s = Inr s1 \<and> map_of (nodes s1) d = Some 0
             \<and> (fst (tick hub s1) = None \<longrightarrow> filter (\<lambda>p. fst p = d) (issued hub s1) = [(d, 0)]))
       \<and> (\<exists>s1. mqtt_on_message e topic ''100'' s = Inr s1 \<and> map_of (nodes s1) d = Some 100
             \<and> (fst (tick hub s1) = None \<longrightarrow> filter (\<lambda>p. fst p = d) (issued hub s1) = [(d, 100)]))"
proof (intro conjI)
  show "\<forall>p \<in> set (issued hub s). snd p \<noteq> -1"
    using issued_nonneg [of _ hub s] by fastforce
  from message_staged [OF assms py_int_sentinel]
  show "\<exists>s1. mqtt_on_message e topic ''-1'' s = Inr s1 \<and> d \<notin> fst ` set (issued hub s1)"
    using issued_negative_key [of _ d "-1" hub] by fastforce
  from message_staged [OF assms py_int_0]
  show "\<exists>s1. mqtt_on_message e topic ''0'' s = Inr s1 \<and> map_of (nodes s1) d = Some 0
             \<and> (fst (tick hub s1) = None \<longrightarrow> filter (\<lambda>p. fst p = d) (issued hub s1) = [(d, 0)])"
    using issued_for_key(2) [of _ d 0 hub] by fastforce
  from message_staged [OF assms py_int_100]
  show "\<exists>s1. mqtt_on_message e topic ''100'' s = Inr s1 \<and> map_of (nodes s1) d = Some 100
             \<and> (fst (tick hub s1) = None \<longrightarrow> filter (\<lambda>p. fst p = d) (issued hub s1) = [(d, 100)])"
    using issued_for_key(2) [of _ d 100 hub] by fastforce
qed

theorem sentinel_and_bounds_witness:
  "distinct (map fst (nodes initial))
   \<and> py_in (''shutter1'' @ ''/set'') ''home/shutter1/set''
   \<and> (\<exists>s1. mqtt_on_message env0 ''home/shutter1/set'' ''-1'' initial = Inr s1
         \<and> issued (\<lambda>n v. True) s1 = [])
   \<and> (\<exists>s1. mqtt_on_message env0 ''home/shutter1/set'' ''0'' initial = Inr s1
         \<and> issued (\<lambda>n v. True) s1 = [(''shutter1'', 0)])
   \<and> (\<exists>s1. mqtt_on_message env0 ''home/shutter1/set'' ''100'' initial = Inr s1
         \<and> issued (\<lambda>n v. True) s1 = [(''shutter1'', 100)])"
proof -
  have h1: "distinct (map fst (nodes initial))" by (simp add: initial_def)
  have h2: "\<lparr>name = ''shutter1'', opening_device = True\<rparr> \<in> set (pyvlx_nodes env0)"
    by (simp add: env0_def)
  have h3: "name \<lparr>name = ''shutter1'', opening_device = True\<rparr> = ''shutter1''" by simp
  have h4: "py_in (''shutter1'' @ ''/set'') ''home/shutter1/set''" by simp
  have a: "mqtt_on_message env0 ''home/shutter1/set'' ''-1'' initial
             = Inr (initial\<lparr>nodes := [(''shutter1'', -1)]\<rparr>)"
    by (simp add: mqtt_on_message_def env0_def py_int_sentinel initial_def)
  have b: "mqtt_on_message env0 ''home/shutter1/set'' ''0'' initial
             = Inr (initial\<lparr>nodes := [(''shutter1'', 0)]\<rparr>)"
    by (simp add: mqtt_on_message_def env0_def py_int_0 initial_def)
  have c: "mqtt_on_message env0 ''home/shutter1/set'' ''100'' initial
             = Inr (initial\<lparr>nodes := [(''shutter1'', 100)]\<rparr>)"
    by (simp add: mqtt_on_message_def env0_def py_int_100 initial_def)
  have ia: "issued (\<lambda>n v. True) (initial\<lparr>nodes := [(''shutter1'', -1)]\<rparr>) = []"
    by (simp add: issued_def tick_def initial_def)
  have ib: "issued (\<lambda>n v. True) (initial\<lparr>nodes := [(''shutter1'', 0)]\<rparr>) = [(''shutter1'', 0)]"
    by (simp add: issued_def tick_def initial_def)
  have ic: "issued (\<lambda>n v. True) (initial\<lparr>nodes := [(''shutter1'', 100)]\<rparr>) = [(''shutter1'', 100)]"
    by (simp add: issued_def tick_def initial_def)
  from sentinel_and_bounds [OF h1 h2 h3 h4, of "\<lambda>n v. True"] h1 h4 a b c ia ib ic
  show ?thesis by simp
qed

text \<open>
  C10. Whatever the main loop passes to the hub is non-negative. A message for a device
  \<open>d\<close> of the roster whose payload is a negative integer \<open>v\<close> is staged (the table
  holds \<open>v\<close> for \<open>d\<close>), the next tick makes no call for \<open>d\<close>, and its calls and the
  way it ends are those of the same table with \<open>-1\<close> for \<open>d\<close>.
\<close>

theorem negative_never_issued:
  assumes "distinct (map fst (nodes s))" and "n \<in> set (pyvlx_nodes e)" and "name n = d"
    and "py_in (d @ ''/set'') topic" and "py_int pl = Some v" and "v < 0"
  shows "(\<forall>p \<in> set (hub_calls (snd (main_loop e hub rounds s0))). p \<in> set (hub_calls s0) \<or> 0 \<le> snd p)
       \<and> (\<exists>s1. mqtt_on_message e topic pl s = Inr s1 \<and> map_of (nodes s1) d = Some v
             \<and> d \<notin> fst ` set (issued hub s1)
             \<and> issued hub s1 = issued hub (s1\<lparr>nodes := dict_set d (-1) (nodes s1)\<rparr>)
             \<and> fst (tick hub s1) = fst (tick hub (s1\<lparr>nodes := dict_set d (-1) (nodes s1)\<rparr>)))"
proof
  show "\<forall>p \<in> set (hub_calls (snd (main_loop e hub rounds s0))). p \<in> set (hub_calls s0) \<or> 0 \<le> snd p"
    using main_loop_calls_nonneg by blast
  from message_staged [OF assms(1-5)] obtain s1 where
    m: "mqtt_on_message e topic pl s = Inr s1" and look: "map_of (nodes s1) d = Some v"
    and dist: "distinct (map fst (nodes s1))" by blast
  have same: "pending (dict_set d (-1) (nodes s1)) = pending (nodes s1)"
    using look \<open>v < 0\<close> by (simp add: pending_same_negative)
  have "d \<notin> fst ` set (issued hub s1)"
    using dist look \<open>v < 0\<close> by (rule issued_negative_key)
  with m look same
  show "\<exists>s1. mqtt_on_message e topic pl s = Inr s1 \<and> map_of (nodes s1) d = Some v
             \<and> d \<notin> fst ` set (issued hub s1)
             \<and> issued hub s1 = issued hub (s1\<lparr>nodes := dict_set d (-1) (nodes s1)\<rparr>)
             \<and> fst (tick hub s1) = fst (tick hub (s1\<lparr>nodes := dict_set d (-1) (nodes s1)\<rparr>))"
    by (simp add: issued_writes tick_outcome)
qed

theorem negative_never_issued_witness:
  "distinct (map fst [(''shutter1'', 42::int)])
   \<and> py_in (''shutter1'' @ ''/set'') ''home/shutter1/set''
   \<and> py_int ''-5'' = Some (-5) \<and> (-5::int) < 0
   \<and> mqtt_on_message env0 ''home/shutter1/set'' ''-5'' (initial\<lparr>nodes := [(''shutter1'', 42)]\<rparr>)
       = Inr (initial\<lparr>nodes := [(''shutter1'', -5)]\<rparr>)
   \<and> ''shutter1'' \<notin> fst ` set (issued (\<lambda>n v. True) (initial\<lparr>nodes := [(''shutter1'', -5)]\<rparr>))"
proof -
  have h1: "distinct (map fst (nodes (initial\<lparr>nodes := [(''shutter1'', 42)]\<rparr>)))" by simp
  have h2: "\<lparr>name = ''shutter1'', opening_device = True\<rparr> \<in> set (pyvlx_nodes env0)"
    by (simp add: env0_def)
  have h3: "name \<lparr>name = ''shutter1'', opening_device = True\<rparr> = ''shutter1''" by simp
  have h4: "py_in (''shutter1'' @ ''/set'') ''home/shutter1/set''" by simp
  have h6: "(-5::int) < 0" by simp
  have a: "mqtt_on_message env0 ''home/shutter1/set'' ''-5'' (initial\<lparr>nodes := [(''shutter1'', 42)]\<rparr>)
       = Inr (initial\<lparr>nodes := [(''shutter1'', -5)]\<rparr>)"
    by (simp add: mqtt_on_message_def env0_def py_int_minus5 initial_def)
  from negative_never_issued [OF h1 h2 h3 h4 py_int_minus5 h6, of "\<lambda>n v. True"]
  have "\<exists>s1. mqtt_on_message env0 ''home/shutter1/set'' ''-5'' (initial\<lparr>nodes := [(''shutter1'', 42)]\<rparr>) = Inr s1
          \<and> ''shutter1'' \<notin> fst ` set (issued (\<lambda>n v. True) s1)"
    by blast
  then have "''shutter1'' \<notin> fst ` set (issued (\<lambda>n v. True) (initial\<lparr>nodes := [(''shutter1'', -5)]\<rparr>))"
    unfolding a by blast
  with a h4 py_int_minus5 show ?thesis by simp
qed

text \<open>
  C9. While \<^verbatim>\<open>MQTT_CONN\<close> is false the device-update callback returns the state as it
  found it, for every device and position: nothing is published and nothing is raised.
  This is the case after every \<^verbatim>\<open>mqtt_on_disconnect\<close> and at the start.
\<close>

theorem publish_skipped_when_not_connected:
  "(\<not> MQTT_CONN s \<longrightarrow> vlx_cb e d p s = s)
   \<and> vlx_cb e d p (mqtt_on_disconnect rc s) = mqtt_on_disconnect rc s
   \<and> vlx_cb e d p initial = initial"
  by (simp add: vlx_cb_def mqtt_on_disconnect_def sleep_def initial_def Let_def)

theorem publish_skipped_when_not_connected_witness:
  "\<not> MQTT_CONN initial \<and> vlx_cb env0 ''shutter1'' 37 initial = initial
   \<and> published (vlx_cb env0 ''shutter1'' 37 (mqtt_on_disconnect 1 (mqtt_on_connect env0 0 initial)))
       = [(''home/status'', Text ''CONNECTED'', True)]"
proof -
  have h: "\<not> MQTT_CONN initial" by (simp add: initial_def)
  have p: "published (mqtt_on_disconnect 1 (mqtt_on_connect env0 0 initial))
             = [(''home/status'', Text ''CONNECTED'', True)]"
    by (simp add: mqtt_on_disconnect_def mqtt_on_connect_def env0_def initial_def publish_def
        subscribe_def sleep_def Let_def)
  from publish_skipped_when_not_connected [of initial env0 "''shutter1''" 37 1]
    publish_skipped_when_not_connected [of "mqtt_on_connect env0 0 initial" env0 "''shutter1''" 37 1]
    h p
  show ?thesis by simp
qed

text \<open>
  C6, as stated, fails: on the command topic of \<^verbatim>\<open>shutter1\<close> the payload \<^verbatim>\<open>abc\<close> makes
  \<^verbatim>\<open>mqtt_on_message\<close> raise \<^verbatim>\<open>ValueError\<close>.
\<close>

theorem malformed_payload_counterexample:
  "py_int ''abc'' = None
   \<and> mqtt_on_message env0 ''home/shutter1/set'' ''abc'' initial = Inl ValueError"
  by (simp add: py_int_abc mqtt_on_message_def env0_def)

text \<open>
  C6, amended. A message whose payload does not parse as an integer stages nothing. When
  its topic carries \<open>name/set\<close> for some node of the roster, \<^verbatim>\<open>mqtt_on_message\<close> raises
  \<^verbatim>\<open>ValueError\<close>; otherwise it returns normally.
\<close>

theorem malformed_payload_raises:
  assumes "py_int pl = None"
  shows "mqtt_on_message e topic pl s =
           (if \<exists>n \<in> set (pyvlx_nodes e). py_in (name n @ ''/set'') topic
            then Inl ValueError else Inr s)
         \<and> handle e (Message topic pl) s = s"
  using assms by (simp add: mqtt_on_message_def on_message_unparsed)

theorem malformed_payload_raises_witness:
  "py_int ''abc'' = None
   \<and> mqtt_on_message env0 ''home/shutter1/set'' ''abc'' initial = Inl ValueError
   \<and> mqtt_on_message env0 ''home/status'' ''abc'' initial = Inr initial
   \<and> handle env0 (Message ''home/shutter1/set'' ''abc'') initial = initial"
proof -
  have m: "\<exists>n \<in> set (pyvlx_nodes env0). py_in (name n @ ''/set'') ''home/shutter1/set''"
    by (simp add: env0_def)
  have n: "\<not> (\<exists>n \<in> set (pyvlx_nodes env0). py_in (name n @ ''/set'') ''home/status'')"
    by (simp add: env0_def)
  from malformed_payload_raises [OF py_int_abc, of env0 "''home/shutter1/set''" initial]
    malformed_payload_raises [OF py_int_abc, of env0 "''home/status''" initial] m n py_int_abc
  show ?thesis by simp
qed

text \<open>
  C5, as stated, fails: the write of 42 raises in the first tick, and the main loop is left
  with that error. The second round never runs (one sleep only), and the command 50
  that would have been staged in it never reaches the hub.
\<close>

theorem hub_failure_counterexample:
  "main_loop env0 (\<lambda>n v. v \<noteq> 42)
     [[Message ''home/shutter1/set'' ''42''], [Message ''home/shutter1/set'' ''50''], []] initial
   = (Raised HubError,
      initial\<lparr>nodes := [(''shutter1'', -1)], hub_calls := [(''shutter1'', 42)], slept := [1]\<rparr>)"
  by (simp add: mqtt_on_message_def env0_def py_int_42 tick_def sleep_def initial_def)

text \<open>
  C5, amended. A hub-write failure is not caught. Let the main loop be running and let the
  table, when a tick starts, hold a position for some device whose hub write raises. Then
  \<^verbatim>\<open>main\<close> ends with that error in this very tick, whatever is scheduled later: no later
  tick runs (no further sleep), the only hub calls are those of this tick, so no command
  staged later is issued, and the shutdown statements do not run (nothing is published
  after the tick).
\<close>

theorem hub_failure_ends_loop:
  assumes "main_loop e hub pre (publish (STATUSTOPIC e) (Text ''KLF200_available'') True (sleep 2 s))
             = (StillRunning, s1)"
    and "(n, v) \<in> set (nodes (fold (handle e) evs (sleep 1 s1)))"
    and "0 \<le> v" and "\<not> hub n v"
  shows "main_from_start e hub disc (pre @ evs # later) s
           = (Raised HubError, snd (tick hub (fold (handle e) evs (sleep 1 s1))))
       \<and> hub_calls (snd (tick hub (fold (handle e) evs (sleep 1 s1))))
           = hub_calls s1 @ issued hub (fold (handle e) evs (sleep 1 s1))
       \<and> slept (snd (tick hub (fold (handle e) evs (sleep 1 s1))))
           = slept (fold (handle e) evs (sleep 1 s1))
       \<and> published (snd (tick hub (fold (handle e) evs (sleep 1 s1))))
           = published (fold (handle e) evs (sleep 1 s1))"
proof -
  let ?s = "publish (STATUSTOPIC e) (Text ''KLF200_available'') True (sleep 2 s)"
  let ?S = "fold (handle e) evs (sleep 1 s1)"
  from main_loop_still_running [OF assms(1), of "evs # later"]
  have run: "RUNNING s1" and app: "main_loop e hub (pre @ evs # later) ?s = main_loop e hub (evs # later) s1"
    by simp_all
  have fails: "fst (tick hub ?S) = Some HubError"
    using assms(2-4) by (rule tick_fails)
  have "main_loop e hub (evs # later) s1 = (Raised HubError, snd (tick hub ?S))"
    using run fails by (simp add: case_prod_beta)
  with app have loop: "main_loop e hub (pre @ evs # later) ?s = (Raised HubError, snd (tick hub ?S))"
    by simp
  have main: "main_from_start e hub disc (pre @ evs # later) s = (Raised HubError, snd (tick hub ?S))"
    unfolding main_from_start_def loop by simp
  have calls: "hub_calls (snd (tick hub ?S)) = hub_calls s1 @ issued hub ?S"
    by (simp add: hub_calls_tick hub_calls_fold_handle sleep_def)
  from main calls show ?thesis by (simp add: slept_tick published_tick)
qed

theorem hub_failure_ends_loop_witness:
  "main_loop env0 (\<lambda>n v. v \<noteq> 42) []
       (publish (STATUSTOPIC env0) (Text ''KLF200_available'') True (sleep 2 initial))
     = (StillRunning, publish (STATUSTOPIC env0) (Text ''KLF200_available'') True (sleep 2 initial))
   \<and> (''shutter1'', 42) \<in> set (nodes (fold (handle env0) [Message ''home/shutter1/set'' ''42'']
         (sleep 1 (publish (STATUSTOPIC env0) (Text ''KLF200_available'') True (sleep 2 initial)))))
   \<and> main_from_start env0 (\<lambda>n v. v \<noteq> 42) True
       ([] @ [Message ''home/shutter1/set'' ''42''] # [[Message ''home/shutter1/set'' ''50''], []])
       initial
     = (Raised HubError,
        initial\<lparr>nodes := [(''shutter1'', -1)], hub_calls := [(''shutter1'', 42)],
          published := [(''home/status'', Text ''KLF200_available'', True)], slept := [2, 1]\<rparr>)"
proof -
  let ?s = "publish (STATUSTOPIC env0) (Text ''KLF200_available'') True (sleep 2 initial)"
  let ?S = "fold (handle env0) [Message ''home/shutter1/set'' ''42''] (sleep 1 ?s)"
  have h1: "main_loop env0 (\<lambda>n v. v \<noteq> 42) [] ?s = (StillRunning, ?s)"
    by (simp add: publish_def sleep_def initial_def)
  have S: "?S = initial\<lparr>nodes := [(''shutter1'', 42)],
             published := [(''home/status'', Text ''KLF200_available'', True)], slept := [2, 1]\<rparr>"
    by (simp add: mqtt_on_message_def env0_def py_int_42 publish_def sleep_def initial_def)
  have h2: "(''shutter1'', 42) \<in> set (nodes ?S)" unfolding S by simp
  have h3: "(0::int) \<le> 42" by simp
  have h4: "\<not> (\<lambda>n v. v \<noteq> (42::int)) ''shutter1'' 42" by simp
  have t: "snd (tick (\<lambda>n v. v \<noteq> 42) ?S)
             = initial\<lparr>nodes := [(''shutter1'', -1)], hub_calls := [(''shutter1'', 42)],
                 published := [(''home/status'', Text ''KLF200_available'', True)], slept := [2, 1]\<rparr>"
    unfolding S by (simp add: tick_def initial_def)
  from hub_failure_ends_loop [OF h1 h2 h3 h4, of True "[[Message ''home/shutter1/set'' ''50''], []]"]
  have "main_from_start env0 (\<lambda>n v. v \<noteq> 42) True
       ([] @ [Message ''home/shutter1/set'' ''42''] # [[Message ''home/shutter1/set'' ''50''], []])
       initial = (Raised HubError, snd (tick (\<lambda>n v. v \<noteq> 42) ?S))"
    by blast
  with h1 h2 t show ?thesis by simp
qed



text \<open>
  C8. Return code 3 makes \<^verbatim>\<open>mqtt_on_connect\<close> wait 10 seconds and nothing else: after
  \<open>k\<close> such refusals and one success, for any \<open>k\<close>, \<^verbatim>\<open>RUNNING\<close> is as before, the
  waits are \<open>k\<close> times 10 seconds, \<^verbatim>\<open>MQTT_CONN\<close> holds and \<^verbatim>\<open>CONNECTED\<close> has been
  published, retained, on the status topic. The connect loop of \<^verbatim>\<open>main\<close> behaves alike:
  when the first \<open>k\<close> calls of \<^verbatim>\<open>MQTTC.connect\<close> fail and the next one succeeds, the
  loop ends (fuel beyond \<open>k\<close> is enough) after exactly \<open>k\<close> retries, each after a wait
  of 10 seconds, and \<^verbatim>\<open>STARTED\<close> is published.
\<close>

theorem transient_refusal_retries:
  assumes "\<forall>i<k. conn (connect_calls s + i) \<noteq> 0" and "conn (connect_calls s + k) = 0" and "k < fuel"
  shows "fold (mqtt_on_connect e) (replicate k 3 @ [0]) s0
           = (register_devices e (pyvlx_nodes e)
                (publish (STATUSTOPIC e) (Text ''CONNECTED'') True
                   (s0\<lparr>slept := slept s0 @ replicate k 10\<rparr>)))\<lparr>MQTT_CONN := True\<rparr>
       \<and> RUNNING (fold (mqtt_on_connect e) (replicate k 3 @ [0]) s0) = RUNNING s0
       \<and> MQTT_CONN (fold (mqtt_on_connect e) (replicate k 3 @ [0]) s0)
       \<and> slept (fold (mqtt_on_connect e) (replicate k 3 @ [0]) s0) = slept s0 @ replicate k 10
       \<and> published (fold (mqtt_on_connect e) (replicate k 3 @ [0]) s0)
           = published s0 @ [(STATUSTOPIC e, Text ''CONNECTED'', True)]
       \<and> connect_broker fuel e conn s
           = Some (s\<lparr>connect_calls := connect_calls s + k + 1,
                     slept := slept s @ replicate k 10,
                     published := published s @ [(STATUSTOPIC e, Text ''STARTED'', True)]\<rparr>)"
proof -
  have f: "fold (mqtt_on_connect e) (replicate k 3 @ [0]) s0
           = (register_devices e (pyvlx_nodes e)
                (publish (STATUSTOPIC e) (Text ''CONNECTED'') True
                   (s0\<lparr>slept := slept s0 @ replicate k 10\<rparr>)))\<lparr>MQTT_CONN := True\<rparr>"
  proof -
    have "mqtt_on_connect e 0 s' = (register_devices e (pyvlx_nodes e)
            (publish (STATUSTOPIC e) (Text ''CONNECTED'') True s'))\<lparr>MQTT_CONN := True\<rparr>" for s'
      by (simp add: mqtt_on_connect_def)
    then show ?thesis by (simp del: fold_replicate add: transient_refusals)
  qed
  let ?s = "s\<lparr>connect_calls := Suc (connect_calls s)\<rparr>"
  have all: "\<forall>i<k. (case i of 0 \<Rightarrow> conn (connect_calls s) | Suc j \<Rightarrow> conn (connect_calls ?s + j)) \<noteq> 0"
  proof (intro allI impI)
    fix i assume "i < k"
    with assms(1) have "conn (connect_calls s + i) \<noteq> 0" by simp
    then show "(case i of 0 \<Rightarrow> conn (connect_calls s) | Suc j \<Rightarrow> conn (connect_calls ?s + j)) \<noteq> 0"
      by (cases i) simp_all
  qed
  have last: "(case k of 0 \<Rightarrow> conn (connect_calls s) | Suc j \<Rightarrow> conn (connect_calls ?s + j)) = 0"
    using assms(2) by (cases k) simp_all
  have c: "connect_broker fuel e conn s
           = Some (s\<lparr>connect_calls := connect_calls s + k + 1,
                     slept := slept s @ replicate k 10,
                     published := published s @ [(STATUSTOPIC e, Text ''STARTED'', True)]\<rparr>)"
    by (simp add: connect_broker_def MQTTC_connect_def
        connect_loop_retries [OF all last assms(3)] publish_def)
  show ?thesis
    unfolding f using c by (simp add: register_devices_eq publish_def)
qed

theorem transient_refusal_retries_witness:
  "(\<lambda>n. if n < 3 then 3 else (0::int)) (connect_calls initial + 0) \<noteq> 0
   \<and> (\<lambda>n. if n < 3 then 3 else (0::int)) (connect_calls initial + 1) \<noteq> 0
   \<and> (\<lambda>n. if n < 3 then 3 else (0::int)) (connect_calls initial + 2) \<noteq> 0
   \<and> (\<lambda>n. if n < 3 then 3 else (0::int)) (connect_calls initial + 3) = 0
   \<and> RUNNING (fold (mqtt_on_connect env0) (replicate 3 3 @ [0]) initial)
   \<and> MQTT_CONN (fold (mqtt_on_connect env0) (replicate 3 3 @ [0]) initial)
   \<and> slept (fold (mqtt_on_connect env0) (replicate 3 3 @ [0]) initial) = [10, 10, 10]
   \<and> published (fold (mqtt_on_connect env0) (replicate 3 3 @ [0]) initial)
       = [(''home/status'', Text ''CONNECTED'', True)]
   \<and> connect_broker 4 env0 (\<lambda>n. if n < 3 then 3 else 0) initial
       = Some (initial\<lparr>connect_calls := 4, slept := [10, 10, 10],
                 published := [(''home/status'', Text ''STARTED'', True)]\<rparr>)"
proof -
  have h1: "\<forall>i<3. (\<lambda>n. if n < 3 then 3 else 0) (connect_calls initial + i) \<noteq> (0::int)"
    by (simp add: initial_def)
  have h2: "(\<lambda>n. if n < 3 then 3 else (0::int)) (connect_calls initial + 3) = 0"
    by (simp add: initial_def)
  have h3: "(3::nat) < 4" by simp
  have r: "replicate 3 (10::nat) = [10, 10, 10]" by (simp add: numeral_3_eq_3)
  from transient_refusal_retries [OF h1 h2 h3, of env0 initial] h1 h2 r
  show ?thesis
    by (simp del: fold_replicate add: initial_def env0_def subscribe_def publish_def)
qed

text \<open>
  C3. A message on the command topic of a roster device with an integer payload is staged
  for that device (\<open>command_topic_staged\<close>), and the scenario of \<^verbatim>\<open>shutter1\<close> runs as
  described (\<open>scenario_shutter1\<close>). The converse fails, because the handler looks for
  \<open>name/set\<close> anywhere in the topic: with the devices \<^verbatim>\<open>window\<close> and \<^verbatim>\<open>roof window\<close>,
  each subscribed under its own topic, a message on \<^verbatim>\<open>home/roof window/set\<close> is staged
  for both, and the next tick moves both.
\<close>

theorem command_reaches_other_device:
  "subscribed (mqtt_on_connect env1 0 initial) = [''home/window/set'', ''home/roof window/set'']
   \<and> mqtt_on_message env1 ''home/roof window/set'' ''42'' initial
       = Inr (initial\<lparr>nodes := [(''window'', 42), (''roof window'', 42)]\<rparr>)
   \<and> tick (\<lambda>n v. True) (initial\<lparr>nodes := [(''window'', 42), (''roof window'', 42)]\<rparr>)
       = (None, initial\<lparr>nodes := [(''window'', -1), (''roof window'', -1)],
                  hub_calls := [(''window'', 42), (''roof window'', 42)]\<rparr>)"
  by (simp add: mqtt_on_connect_def mqtt_on_message_def env1_def py_int_42 tick_def
      initial_def publish_def subscribe_def)

end
